theory Spec2Isabelle
  imports Main "HOL-Library.AList" "HOL-Library.Signed_Division"
begin

section \<open>Time values of the Go standard library, as far as package db uses them\<close>

text \<open>
  A \<open>time.Duration\<close> is a signed 64-bit count of nanoseconds. It is modelled as an
  \<open>int\<close>; every arithmetic result that Go stores in a Duration (or in an \<open>int\<close>, which
  is 64 bits wide on the platforms the bot is built for) is passed through \<open>wrap64\<close>,
  the two's-complement wrap-around.
\<close>

type_synonym Duration = int

definition wrap64 :: "int \<Rightarrow> int" where
  "wrap64 x = (x + 2 ^ 63) mod 2 ^ 64 - 2 ^ 63"

definition minDuration :: Duration where
  "minDuration = - (2 ^ 63)"

definition maxDuration :: Duration where
  "maxDuration = 2 ^ 63 - 1"

definition Second :: Duration where
  "Second = 1000000000"

definition Minute :: Duration where
  "Minute = 60 * Second"

text \<open>
  A \<open>*time.Location\<close> is a table of zone transitions. \<open>firstOffset\<close> is the offset
  (seconds east of UTC) in force before the first transition, \<open>tx\<close> the transitions in
  ascending order, each a pair of the Unix second at which it happens and the offset in force
  from then on. \<open>lookup\<close> is \<open>Location.lookup\<close>: the offset of the last transition that
  is not after the given second.
\<close>

record Location =
  firstOffset :: int
  tx :: "(int \<times> int) list"

fun lookupTx :: "int \<Rightarrow> (int \<times> int) list \<Rightarrow> int \<Rightarrow> int" where
  "lookupTx cur [] sec = cur"
| "lookupTx cur ((w, off) # rest) sec = (if sec < w then cur else lookupTx off rest sec)"

definition lookup :: "Location \<Rightarrow> int \<Rightarrow> int" where
  "lookup l sec = lookupTx (firstOffset l) (tx l) sec"

text \<open>
  A \<open>time.Time\<close> is an instant together with a location. The instant is kept as Unix
  nanoseconds \<open>ns\<close>. Go stores it as 64-bit seconds plus nanoseconds, a range of hundreds of
  billions of years that no Duration arithmetic of this package can leave, so \<open>ns\<close> is an
  unbounded \<open>int\<close>. None of the Time values of package db that reach a comparison carries a
  monotonic clock reading (they all derive from \<open>time.Date\<close>), so \<open>After\<close>,
  \<open>Before\<close>, \<open>Equal\<close> and \<open>Sub\<close> compare the wall-clock instants.
\<close>

record Time =
  ns :: int
  loc :: Location

definition After :: "Time \<Rightarrow> Time \<Rightarrow> bool" where
  "After t u = (ns u < ns t)"

definition Before :: "Time \<Rightarrow> Time \<Rightarrow> bool" where
  "Before t u = (ns t < ns u)"

definition Equal :: "Time \<Rightarrow> Time \<Rightarrow> bool" where
  "Equal t u = (ns t = ns u)"

definition Add :: "Time \<Rightarrow> Duration \<Rightarrow> Time" where
  "Add t d = t\<lparr>ns := ns t + d\<rparr>"

text \<open>\<open>Time.Sub\<close> saturates at the largest and the smallest Duration.\<close>

definition Sub :: "Time \<Rightarrow> Time \<Rightarrow> Duration" where
  "Sub t u =
     (let d = ns t - ns u
      in if d > maxDuration then maxDuration
         else if d < minDuration then minDuration
         else d)"

text \<open>\<open>Time.Zone\<close>, the offset part: seconds east of UTC in force at the instant.\<close>

definition Zone :: "Time \<Rightarrow> int" where
  "Zone t = lookup (loc t) (ns t div 1000000000)"

section \<open>Errors\<close>

text \<open>
  The three sentinel errors of package db, the errors built with \<open>fmt.Errorf\<close> (one
  constructor for each format string, holding the values it prints; \<open>Wrap\<close> is the
  \<open>%w\<close> wrapping with its prefix), the failures of the users file, and the run-time
  panic of an integer division by zero.
\<close>

datatype error =
    ErrUnknownUser
  | ErrKnownUser
  | ErrSetUser
  | ErrTooManyUsers nat int
  | ErrRowLen nat
  | ErrAtoi string
  | ErrTooSmall int int
  | ErrTooLarge int int
  | ErrTooManyDelays nat int
  | ErrFile
  | PanicDivideByZero
  | Wrap string error

section \<open>nextAlarm\<close>

text \<open>
  Go's \<open>/\<close> and \<open>%\<close> on integers truncate towards zero (\<open>sdiv\<close>, \<open>smod\<close>) and
  panic on a zero divisor.
\<close>

definition nextAlarm :: "Time \<Rightarrow> Time \<Rightarrow> Duration \<Rightarrow> error + Time" where
  "nextAlarm alarm dt offset =
     (if After alarm dt then Inr alarm
      else
        let diff = Sub dt alarm
        in if offset = 0 then Inl PanicDivideByZero
           else
             let periods0 = wrap64 (diff sdiv offset);
                 periods = (if diff smod offset > 0 then wrap64 (periods0 + 1) else periods0);
                 next = Add alarm (wrap64 (offset * periods));
                 offsetBefore = Zone alarm;
                 offsetAfter = Zone next
             in Inr (Add next (wrap64 (Second * wrap64 (offsetBefore - offsetAfter)))))"

section \<open>Strings and numbers: the library functions parseUserRow calls\<close>

text \<open>\<open>strings.Trim(s, " ")\<close>: the string without its leading and trailing spaces.\<close>

definition Trim :: "string \<Rightarrow> string" where
  "Trim s = rev (dropWhile (\<lambda>c. c = CHR '' '') (rev (dropWhile (\<lambda>c. c = CHR '' '') s)))"

text \<open>
  \<open>strings.Split(s, " ")\<close>: the pieces between single spaces. The empty string gives one
  empty piece, two adjacent spaces give an empty piece between them.
\<close>

fun Split :: "string \<Rightarrow> string list" where
  "Split [] = [[]]"
| "Split (c # cs) =
     (if c = CHR '' '' then [] # Split cs
      else (case Split cs of [] \<Rightarrow> [[c]] | w # ws \<Rightarrow> (c # w) # ws))"

text \<open>
  \<open>strconv.Atoi\<close>: an optional sign, then one or more decimal digits, and a value that
  fits a 64-bit \<open>int\<close>; anything else is an error.
\<close>

definition isDigit :: "char \<Rightarrow> bool" where
  "isDigit c = (48 \<le> (of_char c :: nat) \<and> (of_char c :: nat) \<le> 57)"

fun digitsVal :: "int \<Rightarrow> string \<Rightarrow> int" where
  "digitsVal n [] = n"
| "digitsVal n (c # cs) = digitsVal (n * 10 + (int (of_char c) - 48)) cs"

definition Atoi :: "string \<Rightarrow> error + int" where
  "Atoi s =
     (let body = (case s of
                    [] \<Rightarrow> []
                  | c # cs \<Rightarrow> if c = CHR ''-'' then cs else if c = CHR ''+'' then cs else s);
          neg = (case s of [] \<Rightarrow> False | c # cs \<Rightarrow> c = CHR ''-'')
      in if body = [] then Inl (ErrAtoi s)
         else if list_all isDigit body
         then
           let v = (if neg then - digitsVal 0 body else digitsVal 0 body)
           in if v < - (2 ^ 63) then Inl (ErrAtoi s)
              else if 2 ^ 63 - 1 < v then Inl (ErrAtoi s)
              else Inr v
         else Inl (ErrAtoi s))"

section \<open>Users and their rows in the users file\<close>

record user =
  name :: string
  delays :: "int list"

text \<open>
  The loop of \<open>parseUserRow\<close> over the delay tokens. \<open>uniq\<close> is the key set of the
  map \<open>uniqDelays\<close>, kept as a list without duplicates. The loop returns at the first token
  that fails, with the checks in the order of the source.
\<close>

fun parseDelays :: "int \<Rightarrow> int \<Rightarrow> string list \<Rightarrow> int list \<Rightarrow> error + int list" where
  "parseDelays minD maxD [] uniq = Inr uniq"
| "parseDelays minD maxD (d # ds) uniq =
     (case Atoi d of
        Inl err \<Rightarrow> Inl (Wrap ''failed parse user delays'' err)
      | Inr j \<Rightarrow>
          if minD > 0 \<and> j < minD then Inl (ErrTooSmall j minD)
          else if maxD > 0 \<and> j > maxD then Inl (ErrTooLarge j maxD)
          else parseDelays minD maxD ds (List.insert j uniq))"

definition parseUserRow :: "string list \<Rightarrow> int \<Rightarrow> int \<Rightarrow> int \<Rightarrow> error + (string \<times> int list)" where
  "parseUserRow userItem minD maxD maxDelays =
     (if length userItem \<noteq> 2 then Inl (ErrRowLen (length userItem))
      else
        let strDelays = Split (Trim (userItem ! 1))
        in case parseDelays minD maxD strDelays [] of
             Inl err \<Rightarrow> Inl err
           | Inr uniqDelays \<Rightarrow>
               let lenDelays = length uniqDelays
               in if maxDelays > 0 \<and> int lenDelays > maxDelays
                  then Inl (ErrTooManyDelays lenDelays maxDelays)
                  else Inr (Trim (userItem ! 0), sort uniqDelays))"

text \<open>
  \<open>loadUsers\<close>. Opening the file and reading it as CSV is the work of the operating system
  and of \<open>encoding/csv\<close>; its outcome, an error or the records, is the argument. The loop
  over the records stops at the first row that does not parse.
\<close>

fun loadRows :: "string list list \<Rightarrow> error + user list" where
  "loadRows [] = Inr []"
| "loadRows (userItem # rest) =
     (case parseUserRow userItem 0 0 0 of
        Inl err \<Rightarrow> Inl (Wrap ''users row parse'' err)
      | Inr (nm, ds) \<Rightarrow>
          (case loadRows rest of
             Inl err \<Rightarrow> Inl err
           | Inr userRecords \<Rightarrow> Inr (\<lparr>name = nm, delays = ds\<rparr> # userRecords)))"

definition loadUsers :: "error + string list list \<Rightarrow> error + user list" where
  "loadUsers file =
     (case file of
        Inl err \<Rightarrow> Inl (Wrap ''users log parse'' err)
      | Inr records \<Rightarrow> loadRows records)"

section \<open>Events and schedule entries\<close>

text \<open>
  Of an \<open>Event\<close>, the fields the storage reads: the texts, the period \<open>offset\<close> and the
  next event time \<open>alarm\<close>. The storage never writes to an Event, so an entry holds its
  event by value where the source holds a pointer to it.
\<close>

record Event =
  Title :: string
  URL :: string
  Message :: string
  offset :: Duration
  alarm :: Time

definition text_of :: "Event \<Rightarrow> string" where
  "text_of e = Title e @ [CHR 0x0A, CHR 0x0A] @ Message e"

record userEvent =
  user :: string
  event :: Event
  delay :: int
  delayOffset :: Duration
  timestamp :: Time

text \<open>
  A \<open>userMsg\<close> without its bot; \<open>start_m\<close> is the instant that the source formats as an
  RFC 3339 string.
\<close>

record userMsg =
  user_m :: string
  text_m :: string
  url_m :: string
  start_m :: Time

definition Message_of :: "userEvent \<Rightarrow> userMsg" where
  "Message_of ue =
     \<lparr>user_m = user ue, text_m = text_of (event ue), url_m = URL (event ue),
      start_m = Add (timestamp ue) (delayOffset ue)\<rparr>"

text \<open>
  \<open>user.init\<close>. The inner loop makes one entry for each delay, the outer loop runs over the
  events and stops with the panic of \<open>nextAlarm\<close> if there is one. \<open>now\<close> is the value
  \<open>time.Now()\<close> returns at the start of the method.
\<close>

fun delayItems :: "string \<Rightarrow> Event \<Rightarrow> Time \<Rightarrow> int list \<Rightarrow> userEvent list" where
  "delayItems nm e na [] = []"
| "delayItems nm e na (d # ds) =
     (let off = wrap64 (d * Minute)
      in \<lparr>user = nm, event = e, delay = d, delayOffset = off,
          timestamp = Add na (wrap64 (- off))\<rparr> # delayItems nm e na ds)"

fun eventItems :: "user \<Rightarrow> Event list \<Rightarrow> Time \<Rightarrow> error + userEvent list" where
  "eventItems u [] now = Inr []"
| "eventItems u (e # es) now =
     (case nextAlarm (alarm e) now (offset e) of
        Inl p \<Rightarrow> Inl p
      | Inr na \<Rightarrow>
          (case eventItems u es now of
             Inl p \<Rightarrow> Inl p
           | Inr rest \<Rightarrow> Inr (delayItems (name u) e na (delays u) @ rest)))"

text \<open>
  Entries are shared: the global list \<open>items\<close> and the per-user index \<open>userIdx\<close> hold
  pointers to the same \<open>userEvent\<close> objects, and \<open>notifications\<close> writes to an object
  through the pointer. The objects therefore live in a store, the list \<open>heap\<close>; a pointer is
  an index into it and a new object is appended.

  \<open>byTimestamp\<close> is \<open>sort.Slice\<close> with the comparison \<open>timestamp.Before\<close>, on a list
  of pointers. (\<open>sort.Slice\<close> does not promise an order among entries of equal timestamp;
  the model takes the stable one.)
\<close>

definition byTimestamp :: "userEvent list \<Rightarrow> nat list \<Rightarrow> nat list" where
  "byTimestamp h as = sort_key (\<lambda>a. ns (timestamp (h ! a))) as"

definition user_init ::
    "userEvent list \<Rightarrow> user \<Rightarrow> Event list \<Rightarrow> Time \<Rightarrow> error + (userEvent list \<times> nat list)" where
  "user_init h u es now =
     (case eventItems u es now of
        Inl p \<Rightarrow> Inl p
      | Inr new \<Rightarrow> Inr (h @ new, byTimestamp (h @ new) [length h ..< length h + length new]))"

section \<open>Storage\<close>

record Limits =
  Users :: int
  Delays :: int
  MinDelay :: int
  MaxDelay :: int

text \<open>
  The two maps are association lists: \<open>map_of\<close> reads a key, \<open>AList.update\<close> assigns to
  it, \<open>AList.delete\<close> deletes it, \<open>len_map\<close> counts the keys. The mutex is not modelled:
  every method holds it from start to end, so each method is one step on the state.
\<close>

record Storage =
  events :: "Event list"
  items :: "nat list"
  limits :: Limits
  users :: "(string \<times> user) list"
  userIdx :: "(string \<times> nat list) list"
  heap :: "userEvent list"

definition len_map :: "(string \<times> 'v) list \<Rightarrow> nat" where
  "len_map m = length (remdups (map fst m))"

text \<open>
  \<open>flush\<close> rewrites the users file. What it writes is not part of the model, whether it
  succeeds is: \<open>fileOutcome\<close> says how the file system answers.
\<close>

datatype fileOutcome = Written | OpenFails | WriteFails | FlushFails

definition flush :: "fileOutcome \<Rightarrow> Storage \<Rightarrow> error option" where
  "flush fs s =
     (case fs of
        Written \<Rightarrow> None
      | OpenFails \<Rightarrow> Some (Wrap ''users log open to save'' ErrFile)
      | WriteFails \<Rightarrow> Some (Wrap ''users log write'' ErrFile)
      | FlushFails \<Rightarrow> Some (Wrap ''users log flush'' ErrFile))"

text \<open>
  \<open>Storage.init\<close>: the loop over the loaded users, then the sort. Each call of
  \<open>user.init\<close> reads the clock itself; \<open>clock i\<close> is the reading of the call for the user
  at position \<open>i\<close>.
\<close>

fun initLoop :: "Storage \<Rightarrow> nat \<Rightarrow> user list \<Rightarrow> (nat \<Rightarrow> Time) \<Rightarrow> error + Storage" where
  "initLoop s i [] clock = Inr s"
| "initLoop s i (u # us) clock =
     (case user_init (heap s) u (events s) (clock i) of
        Inl p \<Rightarrow> Inl p
      | Inr (h, new) \<Rightarrow>
          initLoop (s\<lparr>heap := h,
                      users := AList.update (name u) u (users s),
                      userIdx := AList.update (name u) new (userIdx s),
                      items := items s @ new\<rparr>) (Suc i) us clock)"

definition Storage_init :: "Event list \<Rightarrow> Limits \<Rightarrow> user list \<Rightarrow> (nat \<Rightarrow> Time) \<Rightarrow> error + Storage" where
  "Storage_init es l us clock =
     (case initLoop \<lparr>events = es, items = [], limits = l, users = [], userIdx = [], heap = []\<rparr>
             0 us clock of
        Inl p \<Rightarrow> Inl p
      | Inr s \<Rightarrow> Inr (s\<lparr>items := byTimestamp (heap s) (items s)\<rparr>))"

definition New :: "error + string list list \<Rightarrow> Event list \<Rightarrow> Limits \<Rightarrow> (nat \<Rightarrow> Time) \<Rightarrow> error + Storage" where
  "New file es l clock =
     (case loadUsers file of
        Inl err \<Rightarrow> Inl err
      | Inr us \<Rightarrow> Storage_init es l us clock)"

text \<open>
  The methods return the state they leave behind and the error, \<open>None\<close> for \<open>nil\<close>.
\<close>

definition Start :: "Storage \<Rightarrow> string \<Rightarrow> fileOutcome \<Rightarrow> Storage \<times> error option" where
  "Start s userName fs =
     (let n = len_map (users s)
      in if int n \<ge> Users (limits s) then (s, Some (ErrTooManyUsers n (Users (limits s))))
         else if map_of (users s) userName \<noteq> None then (s, Some ErrKnownUser)
         else
           let s' = s\<lparr>users := AList.update userName \<lparr>name = userName, delays = []\<rparr> (users s),
                      userIdx := AList.update userName [] (userIdx s)\<rparr>
           in (case flush fs s' of
                 Some err \<Rightarrow> (s', Some (Wrap ''start user'' err))
               | None \<Rightarrow> (s', None)))"

definition Stop :: "Storage \<Rightarrow> string \<Rightarrow> fileOutcome \<Rightarrow> Storage \<times> error option" where
  "Stop s userName fs =
     (case map_of (users s) userName of
        None \<Rightarrow> (s, Some ErrUnknownUser)
      | Some _ \<Rightarrow>
          let storageItems = filter (\<lambda>a. user (heap s ! a) \<noteq> userName) (items s);
              s' = s\<lparr>users := AList.delete userName (users s),
                     userIdx := AList.delete userName (userIdx s),
                     items := byTimestamp (heap s) storageItems\<rparr>
          in (case flush fs s' of
                Some err \<Rightarrow> (s', Some (Wrap ''stop user'' err))
              | None \<Rightarrow> (s', None)))"

text \<open>
  \<open>Storage.Set\<close>. \<open>u\<close> is a pointer to the user object of the map, so the assignment to
  \<open>u.delays\<close> is an assignment to the map's entry for \<open>userName\<close>; the state at each
  return is the state the source has reached there.
\<close>

definition Set :: "Storage \<Rightarrow> string \<Rightarrow> string \<Rightarrow> Time \<Rightarrow> fileOutcome \<Rightarrow> Storage \<times> error option" where
  "Set s userName values now fs =
     (if values = [] then (s, Some ErrSetUser)
      else
        (case map_of (users s) userName of
           None \<Rightarrow> (s, Some ErrUnknownUser)
         | Some u0 \<Rightarrow>
             (case parseUserRow [userName, values]
                     (MaxDelay (limits s)) (MinDelay (limits s)) (Delays (limits s)) of
                Inl err \<Rightarrow> (s, Some (Wrap ''set user'' err))
              | Inr (_, ds) \<Rightarrow>
                  (let u = u0\<lparr>delays := ds\<rparr>;
                       s1 = s\<lparr>users := AList.update userName u (users s)\<rparr>
                   in (case user_init (heap s1) u (events s1) now of
                         Inl p \<Rightarrow> (s1, Some p)
                       | Inr (h, new) \<Rightarrow>
                           (let s2 = s1\<lparr>heap := h,
                                       users := AList.update (name u) u (users s1),
                                       userIdx := AList.update (name u) new (userIdx s1)\<rparr>
                            in (case flush fs s2 of
                                  Some err \<Rightarrow> (s2, Some (Wrap ''save updated user'' err))
                                | None \<Rightarrow>
                                    (let storageItems =
                                           filter (\<lambda>a. user (h ! a) \<noteq> name u) (items s2) @ new
                                     in (s2\<lparr>items := byTimestamp h storageItems\<rparr>, None)))))))))"

text \<open>
  \<open>Storage.notifications\<close>. \<open>collectDue\<close> is the loop: it reads each entry through its
  pointer, so it sees the writes of the earlier rounds, and it stops at the first entry that is
  not before \<open>now\<close>. \<open>now\<close> is the value \<open>time.Now()\<close> returns at the start.
\<close>

fun collectDue :: "userEvent list \<Rightarrow> nat list \<Rightarrow> Time \<Rightarrow> userEvent list \<times> userMsg list" where
  "collectDue h [] now = (h, [])"
| "collectDue h (a # as) now =
     (let i = h ! a
      in if Before (timestamp i) now
         then
           let (h', msgs) =
                 collectDue (h[a := i\<lparr>timestamp := Add (timestamp i) (offset (event i))\<rparr>]) as now
           in (h', Message_of i # msgs)
         else (h, []))"

definition notifications :: "Storage \<Rightarrow> Time \<Rightarrow> Storage \<times> userMsg list" where
  "notifications s now =
     (let (h, msgs) = collectDue (heap s) (items s) now
      in (s\<lparr>heap := h, items := byTimestamp h (items s)\<rparr>, msgs))"

section \<open>Properties of a storage state\<close>

text \<open>
  The global list is sorted: every pointer of \<open>items\<close> points to an object of the store,
  and the timestamps of the objects ascend along the list.
\<close>

definition sortedItems :: "Storage \<Rightarrow> bool" where
  "sortedItems s =
     ((\<forall>a \<in> set (items s). a < length (heap s)) \<and>
      sorted (map (\<lambda>a. ns (timestamp (heap s ! a))) (items s)))"

text \<open>
  The three structures agree: the maps \<open>users\<close> and \<open>userIdx\<close> have the same keys, and
  the global list holds exactly the entries that the index lists for the registered users.
\<close>

definition userEntries :: "Storage \<Rightarrow> nat list" where
  "userEntries s =
     concat (map (\<lambda>(nm, u). case map_of (userIdx s) nm of None \<Rightarrow> [] | Some as \<Rightarrow> as) (users s))"

definition consistent :: "Storage \<Rightarrow> bool" where
  "consistent s =
     (fst ` set (users s) = fst ` set (userIdx s) \<and> set (items s) = set (userEntries s))"

section \<open>Concrete data\<close>

text \<open>
  Europe/Berlin in 2021: UTC+1 until 28 March 01:00 UTC, UTC+2 until 31 October 01:00 UTC,
  UTC+1 after that.
\<close>

definition berlin :: Location where
  "berlin = \<lparr>firstOffset = 3600, tx = [(1616893200, 7200), (1635642000, 3600)]\<rparr>"

definition utc :: Location where
  "utc = \<lparr>firstOffset = 0, tx = []\<rparr>"

definition hour :: Duration where
  "hour = 3600 * Second"

definition week :: Duration where
  "week = 7 * 24 * hour"

text \<open>5 January 2021, 15:00 in Berlin (14:00 UTC).\<close>

definition jan5 :: Time where
  "jan5 = \<lparr>ns = 1609855200 * Second, loc = berlin\<rparr>"

text \<open>13 July 2021 in Berlin: 15:00 (13:00 UTC) and 15:30 (13:30 UTC); 20 July 2021, 15:00.\<close>

definition jul13 :: Time where
  "jul13 = \<lparr>ns = 1626181200 * Second, loc = berlin\<rparr>"

definition jul13_half_past :: Time where
  "jul13_half_past = \<lparr>ns = 1626183000 * Second, loc = berlin\<rparr>"

definition jul20 :: Time where
  "jul20 = \<lparr>ns = 1626786000 * Second, loc = berlin\<rparr>"

text \<open>Instants of a day that starts at Unix time 0, in UTC.\<close>

definition at_minute :: "int \<Rightarrow> Time" where
  "at_minute m = \<lparr>ns = m * Minute, loc = utc\<rparr>"

text \<open>An event every hour, next at 04:00, and one every week, next at 04:00.\<close>

definition hourly :: Event where
  "hourly = \<lparr>Title = ''stand-up'', URL = ''https://example.org/a'', Message = ''join'',
             offset = hour, alarm = at_minute 240\<rparr>"

definition weekly :: Event where
  "weekly = \<lparr>Title = ''review'', URL = ''https://example.org/b'', Message = ''join'',
             offset = week, alarm = at_minute 240\<rparr>"

text \<open>
  Limits as a configuration file may give them (the configuration loader asks for
  \<open>users\<close>, \<open>delays\<close> and \<open>min_delay\<close> of at least 1 and a \<open>max_delay\<close> of at least
  \<open>min_delay\<close>).
\<close>

definition limits_1_100 :: Limits where
  "limits_1_100 = \<lparr>Users = 10, Delays = 5, MinDelay = 1, MaxDelay = 100\<rparr>"

definition limits_5_5 :: Limits where
  "limits_5_5 = \<lparr>Users = 10, Delays = 5, MinDelay = 5, MaxDelay = 5\<rparr>"

definition limits_one_user :: Limits where
  "limits_one_user = \<lparr>Users = 1, Delays = 5, MinDelay = 1, MaxDelay = 100\<rparr>"

text \<open>A storage without users, and the storage after \<open>/start\<close> of the user \<open>u\<close>.\<close>

definition fresh :: "Event list \<Rightarrow> Limits \<Rightarrow> Storage" where
  "fresh es l = \<lparr>events = es, items = [], limits = l, users = [], userIdx = [], heap = []\<rparr>"

definition started :: "Event list \<Rightarrow> Limits \<Rightarrow> Storage" where
  "started es l = fst (Start (fresh es l) ''u'' Written)"

text \<open>
  A storage built at start-up from a users file with the one row \<open>u,<delay>\<close>, with the
  clock at the given minute.
\<close>

definition loaded :: "Event list \<Rightarrow> string \<Rightarrow> int \<Rightarrow> error + Storage" where
  "loaded es row m = New (Inr [[''u'', row]]) es limits_1_100 (\<lambda>i. at_minute m)"

text \<open>
  The storage built at 03:30 for the hourly event and the one user \<open>u\<close> with the delays
  30 and 120.
\<close>

definition two_delays_storage :: "error + Storage" where
  "two_delays_storage =
     Storage_init [hourly] limits_5_5 [\<lparr>name = ''u'', delays = [30, 120]\<rparr>] (\<lambda>i. at_minute 210)"

section \<open>Properties of nextAlarm\<close>

lemma wrap64_0: "wrap64 0 = 0"
  by (simp add: wrap64_def)

lemma Add_0: "Add t 0 = t"
  by (simp add: Add_def)

lemma wrap64_id: "- (2 ^ 63) \<le> x \<Longrightarrow> x < 2 ^ 63 \<Longrightarrow> wrap64 x = x"
  by (simp add: wrap64_def)

lemma sdiv_nonneg: "0 \<le> (k::int) \<Longrightarrow> 0 < l \<Longrightarrow> k sdiv l = k div l"
  by (cases "k = 0") (simp_all add: signed_divide_int_def)

lemma smod_nonneg: "0 \<le> (k::int) \<Longrightarrow> 0 < l \<Longrightarrow> k smod l = k mod l"
  by (cases "k = 0") (simp_all add: signed_modulo_int_def)

lemma Zone_fixed: "tx (loc t) = [] \<Longrightarrow> Zone t = firstOffset (loc t)"
  by (simp add: Zone_def lookup_def)

lemma nextAlarm_after: "After anchor now \<Longrightarrow> nextAlarm anchor now period = Inr anchor"
  by (simp add: nextAlarm_def)

lemma nextAlarm_equal:
  assumes "Equal anchor now" and "period \<noteq> 0"
  shows "nextAlarm anchor now period = Inr anchor"
proof -
  from assms(1) have same: "ns now = ns anchor"
    by (simp add: Equal_def)
  have diff0: "Sub now anchor = 0"
    by (simp add: Sub_def same maxDuration_def minDuration_def)
  have notafter: "\<not> After anchor now"
    by (simp add: After_def same)
  show ?thesis
    by (simp add: nextAlarm_def notafter diff0 assms(2) wrap64_0 Add_0 Let_def)
qed

text \<open>
  The cases of \<open>TestNextAlarm\<close> that name their zone, Europe/Berlin: from winter time into
  summer time (\<open>another_tz\<close>), from summer time into winter time (\<open>another_tz_revert\<close>),
  and from an anchor in 1984 (\<open>big_another_tz\<close>). The model gives the instants the test
  expects.
\<close>

lemma nextAlarm_repository_tests:
  "nextAlarm jan5 \<lparr>ns = 1625692333 * Second, loc = berlin\<rparr> week = Inr jul13 \<and>
   nextAlarm jul13 \<lparr>ns = 1639001533 * Second, loc = berlin\<rparr> week =
     Inr \<lparr>ns = 1639490400 * Second, loc = berlin\<rparr> \<and>
   nextAlarm \<lparr>ns = 441986400 * Second, loc = berlin\<rparr>
       \<lparr>ns = 1625692333 * Second, loc = berlin\<rparr> week = Inr jul13"
  by code_simp

text \<open>
  C9, as stated, fails. Only an anchor that is after the reference instant is returned by the
  first branch; an anchor equal to the reference instant goes on to the division of the
  elapsed time by the period. \<open>Event.validate\<close> accepts the period \<open>0s\<close>, and with it
  the division panics: the anchor is not returned.
\<close>

theorem nextAlarm_equal_instants_zero_period:
  "Equal jul13 jul13 \<and>
   nextAlarm jul13 jul13 0 = Inl PanicDivideByZero \<and>
   nextAlarm jul13 jul13 0 \<noteq> Inr jul13"
  by code_simp

text \<open>
  C9, amended. An anchor that is after the reference instant is returned as it is, whatever
  the period. An anchor equal to the reference instant is returned as it is too, for every
  period other than zero: equality takes the computing branch, which finds zero elapsed
  periods and a zero zone correction.
\<close>

theorem nextAlarm_anchor_not_before_now:
  "(After anchor now \<longrightarrow> nextAlarm anchor now period = Inr anchor) \<and>
   (Equal anchor now \<and> period \<noteq> 0 \<longrightarrow> nextAlarm anchor now period = Inr anchor)"
  using nextAlarm_after nextAlarm_equal by blast

theorem nextAlarm_anchor_not_before_now_witness:
  "After jul20 jul13 \<and> nextAlarm jul20 jul13 week = Inr jul20 \<and>
   Equal jul13 jul13 \<and> week \<noteq> 0 \<and> nextAlarm jul13 jul13 week = Inr jul13"
proof -
  have later: "After jul20 jul13"
    by code_simp
  have same: "Equal jul13 jul13"
    by (simp add: Equal_def)
  have period: "week \<noteq> 0"
    by code_simp
  from later same period
    nextAlarm_anchor_not_before_now [of jul20 jul13 week]
    nextAlarm_anchor_not_before_now [of jul13 jul13 week]
  show ?thesis
    by blast
qed

text \<open>
  C3. The reference instant is 13 July 2021, 15:30 in Berlin, the anchor 5 January 2021, 15:00
  in Berlin, the period one week. Rounding up gives 27 weeks, which is 13 July 16:00 in summer
  time; the zone correction takes the hour back, and the result, 13 July 15:00, is before the
  reference instant.
\<close>

theorem nextAlarm_before_now_after_zone_correction:
  "nextAlarm jan5 jul13_half_past week = Inr jul13 \<and> Before jul13 jul13_half_past"
  by code_simp

text \<open>
  C7. With the same anchor, reference instant and period, the first application gives
  13 July 15:00, which is before the reference instant, so the second application moves on to
  20 July 15:00.
\<close>

theorem nextAlarm_twice_differs_after_zone_correction:
  "nextAlarm jan5 jul13_half_past week = Inr jul13 \<and>
   nextAlarm jul13 jul13_half_past week = Inr jul20 \<and>
   jul20 \<noteq> jul13"
  by code_simp

text \<open>
  What the rounding alone achieves. In a location without zone transitions, for a positive
  period and an anchor that is not after the reference instant, with the elapsed time plus one
  period in the range of a Duration, \<open>nextAlarm\<close> adds a whole number of periods to the
  anchor and lands in the period that starts at the reference instant; the result is not
  before the reference instant, and a second application returns it.
\<close>

lemma nextAlarm_fixed_zone:
  assumes pos: "0 < period"
    and past: "ns anchor \<le> ns dt"
    and fits: "ns dt - ns anchor + period \<le> maxDuration"
    and fixed: "tx (loc anchor) = []"
  shows "\<exists>k. 0 \<le> k \<and> nextAlarm anchor dt period = Inr (Add anchor (period * k)) \<and>
             ns dt \<le> ns anchor + period * k \<and> ns anchor + period * k < ns dt + period"
proof -
  define d where "d = ns dt - ns anchor"
  define q where "q = d div period"
  define m where "m = d mod period"
  define k where "k = (if 0 < m then q + 1 else q)"
  have d0: "0 \<le> d"
    using past by (simp add: d_def)
  have dmax: "d + period \<le> 2 ^ 63 - 1"
    using fits by (simp add: d_def maxDuration_def)
  have split: "d = period * q + m"
    by (simp add: q_def m_def)
  have m0: "0 \<le> m" and mp: "m < period"
    using pos by (simp_all add: m_def)
  have q0: "0 \<le> q"
    using d0 pos by (simp add: q_def pos_imp_zdiv_nonneg_iff)
  have qd: "q \<le> d"
  proof -
    have "q * 1 \<le> q * period"
      using q0 pos by (intro mult_left_mono) simp_all
    then show ?thesis
      using split m0 by (simp add: mult.commute)
  qed
  have pk: "period * k = (if 0 < m then d - m + period else d)"
    using split m0 by (auto simp add: k_def distrib_left)
  have k0: "0 \<le> k"
    using q0 by (simp add: k_def)
  have sub: "Sub dt anchor = d"
    using d0 dmax pos by (simp add: Sub_def d_def [symmetric] maxDuration_def minDuration_def)
  have notafter: "\<not> After anchor dt"
    using past by (simp add: After_def)
  have w1: "wrap64 (d sdiv period) = q"
    using d0 pos q0 qd dmax by (simp add: sdiv_nonneg q_def [symmetric] wrap64_id)
  have sm: "d smod period = m"
    using d0 pos by (simp add: smod_nonneg m_def)
  have w3: "wrap64 (period * k) = period * k"
    using pk m0 mp d0 dmax by (intro wrap64_id) (auto split: if_splits)
  have zfix: "Zone (Add anchor x) = Zone anchor" for x
    using fixed by (simp add: Zone_fixed Add_def)
  have run: "nextAlarm anchor dt period = Inr (Add anchor (period * k))"
  proof (cases "0 < m")
    case True
    then have kq: "k = q + 1"
      by (simp add: k_def)
    have a: "wrap64 (q + 1) = q + 1"
      using q0 qd dmax pos by (intro wrap64_id) simp_all
    have b: "wrap64 (period * (q + 1)) = period * (q + 1)"
      using w3 kq by simp
    show ?thesis
      using pos True
      by (simp add: nextAlarm_def notafter sub w1 sm a b zfix wrap64_0 Add_0 Let_def kq)
  next
    case False
    then have kq: "k = q"
      by (simp add: k_def)
    have b: "wrap64 (period * q) = period * q"
      using w3 kq by simp
    show ?thesis
      using pos False
      by (simp add: nextAlarm_def notafter sub w1 sm b zfix wrap64_0 Add_0 Let_def kq)
  qed
  have lo: "ns dt \<le> ns anchor + period * k"
    using pk m0 mp by (auto simp add: d_def split: if_splits)
  have hi: "ns anchor + period * k < ns dt + period"
    using pk m0 mp pos by (auto simp add: d_def split: if_splits)
  from k0 run lo hi show ?thesis
    by blast
qed

lemma nextAlarm_fixed_zone_not_before_and_idempotent:
  assumes "0 < period" and "ns anchor \<le> ns dt"
    and "ns dt - ns anchor + period \<le> maxDuration" and "tx (loc anchor) = []"
  shows "\<exists>r. nextAlarm anchor dt period = Inr r \<and> \<not> Before r dt \<and>
             nextAlarm r dt period = Inr r"
proof -
  from nextAlarm_fixed_zone [OF assms] obtain k where
    run: "nextAlarm anchor dt period = Inr (Add anchor (period * k))"
    and lo: "ns dt \<le> ns anchor + period * k"
    by blast
  define r where "r = Add anchor (period * k)"
  have nsr: "ns r = ns anchor + period * k"
    by (simp add: r_def Add_def)
  have nb: "\<not> Before r dt"
    using lo by (simp add: Before_def nsr)
  have again: "nextAlarm r dt period = Inr r"
  proof (cases "After r dt")
    case True
    then show ?thesis by (rule nextAlarm_after)
  next
    case False
    with nb have "Equal r dt"
      by (simp add: After_def Before_def Equal_def)
    moreover from assms(1) have "period \<noteq> 0"
      by simp
    ultimately show ?thesis
      by (rule nextAlarm_equal)
  qed
  from run nb again show ?thesis
    by (auto simp add: r_def)
qed

section \<open>Properties of Set\<close>

text \<open>
  C1. The limits allow delays from 1 to 100 and five of them. The user \<open>u\<close> is subscribed
  and asks for the one delay 5. \<open>Set\<close> hands \<open>MaxDelay\<close> to \<open>parseUserRow\<close> as the
  minimum and \<open>MinDelay\<close> as the maximum, and the request fails as too small, 5 < 100.
\<close>

theorem Set_rejects_delay_inside_limits:
  "map_of (users (started [weekly] limits_1_100)) ''u'' = Some \<lparr>name = ''u'', delays = []\<rparr> \<and>
   Atoi ''5'' = Inr 5 \<and>
   MinDelay limits_1_100 \<le> 5 \<and> 5 \<le> MaxDelay limits_1_100 \<and> 1 \<le> Delays limits_1_100 \<and>
   Set (started [weekly] limits_1_100) ''u'' ''5'' (at_minute 0) Written =
     (started [weekly] limits_1_100, Some (Wrap ''set user'' (ErrTooSmall 5 100)))"
  by code_simp

text \<open>
  C6. The limits allow the one delay 5. The user \<open>u\<close> is subscribed, the three structures
  agree, and the users file cannot be opened. \<open>Set\<close> stores the new delays and the new
  entry in \<open>users\<close> and \<open>userIdx\<close>, fails in \<open>flush\<close> and returns before it comes to
  the global list: the index lists an entry that the global list does not hold.
\<close>

theorem Set_flush_failure_leaves_index_and_list_apart:
  "consistent (started [weekly] limits_5_5) \<and>
   snd (Set (started [weekly] limits_5_5) ''u'' ''5'' (at_minute 0) OpenFails) =
     Some (Wrap ''save updated user'' (Wrap ''users log open to save'' ErrFile)) \<and>
   map_of (userIdx (fst (Set (started [weekly] limits_5_5) ''u'' ''5'' (at_minute 0) OpenFails))) ''u'' =
     Some [0] \<and>
   items (fst (Set (started [weekly] limits_5_5) ''u'' ''5'' (at_minute 0) OpenFails)) = [] \<and>
   \<not> consistent (fst (Set (started [weekly] limits_5_5) ''u'' ''5'' (at_minute 0) OpenFails))"
  by code_simp

text \<open>
  C8, as stated, fails: \<open>Set\<close> looks at the values first, so with empty values it fails
  with \<open>ErrSetUser\<close> for a user who is absent too.
\<close>

theorem Set_empty_values_unknown_user:
  "map_of (users (started [weekly] limits_1_100)) ''ghost'' = None \<and>
   Set (started [weekly] limits_1_100) ''ghost'' [] (at_minute 0) Written =
     (started [weekly] limits_1_100, Some ErrSetUser) \<and>
   snd (Set (started [weekly] limits_1_100) ''ghost'' [] (at_minute 0) Written) \<noteq> Some ErrUnknownUser"
  by code_simp

text \<open>
  C8, amended. With empty values \<open>Set\<close> fails with \<open>ErrSetUser\<close> and changes nothing,
  whoever the user is. With values that are not empty it fails with \<open>ErrUnknownUser\<close> and
  changes nothing whenever the user is absent.
\<close>

theorem Set_first_checks:
  "(values = [] \<longrightarrow> Set s userName values now fs = (s, Some ErrSetUser)) \<and>
   (values \<noteq> [] \<and> map_of (users s) userName = None \<longrightarrow>
      Set s userName values now fs = (s, Some ErrUnknownUser))"
  by (simp add: Set_def)

theorem Set_first_checks_witness:
  "Set (started [weekly] limits_1_100) ''u'' [] (at_minute 0) Written =
     (started [weekly] limits_1_100, Some ErrSetUser) \<and>
   ''5'' \<noteq> [] \<and> map_of (users (started [weekly] limits_1_100)) ''ghost'' = None \<and>
   Set (started [weekly] limits_1_100) ''ghost'' ''5'' (at_minute 0) Written =
     (started [weekly] limits_1_100, Some ErrUnknownUser)"
proof -
  have unknown: "map_of (users (started [weekly] limits_1_100)) ''ghost'' = None"
    by code_simp
  from unknown
    Set_first_checks [of "[]" "started [weekly] limits_1_100" "''u''" "at_minute 0" Written]
    Set_first_checks [of "''5''" "started [weekly] limits_1_100" "''ghost''" "at_minute 0" Written]
  show ?thesis
    by simp
qed

section \<open>Properties of Start\<close>

text \<open>
  C2, as stated, fails: the storage holds the one user \<open>u\<close> and allows one user. \<open>Start\<close>
  compares the number of users with the limit before it looks the user up, so the second
  \<open>/start\<close> of \<open>u\<close> fails with the limit error, not with \<open>ErrKnownUser\<close>.
\<close>

theorem Start_known_user_at_limit:
  "map_of (users (started [weekly] limits_one_user)) ''u'' = Some \<lparr>name = ''u'', delays = []\<rparr> \<and>
   Start (started [weekly] limits_one_user) ''u'' Written =
     (started [weekly] limits_one_user, Some (ErrTooManyUsers 1 1)) \<and>
   snd (Start (started [weekly] limits_one_user) ''u'' Written) \<noteq> Some ErrKnownUser"
  by code_simp

text \<open>
  C2, amended. When the number of users has reached \<open>limits.Users\<close>, \<open>Start\<close> fails with
  the limit error and changes nothing, whether the user is present or not. Below the limit it
  fails with \<open>ErrKnownUser\<close> for a user who is present and changes nothing. Below the limit
  and for a new user it stores an empty profile and an empty entry list for the user, leaves
  the global list and the entries as they are, and returns no error exactly when the users
  file was written.
\<close>

theorem Start_outcomes:
  "(Users (limits s) \<le> int (len_map (users s)) \<longrightarrow>
      Start s userName fs = (s, Some (ErrTooManyUsers (len_map (users s)) (Users (limits s))))) \<and>
   (int (len_map (users s)) < Users (limits s) \<and> map_of (users s) userName \<noteq> None \<longrightarrow>
      Start s userName fs = (s, Some ErrKnownUser)) \<and>
   (int (len_map (users s)) < Users (limits s) \<and> map_of (users s) userName = None \<longrightarrow>
      map_of (users (fst (Start s userName fs))) userName = Some \<lparr>name = userName, delays = []\<rparr> \<and>
      map_of (userIdx (fst (Start s userName fs))) userName = Some [] \<and>
      items (fst (Start s userName fs)) = items s \<and>
      heap (fst (Start s userName fs)) = heap s \<and>
      (snd (Start s userName fs) = None \<longleftrightarrow> fs = Written))"
proof (intro conjI impI)
  assume "Users (limits s) \<le> int (len_map (users s))"
  then show "Start s userName fs = (s, Some (ErrTooManyUsers (len_map (users s)) (Users (limits s))))"
    by (simp add: Start_def Let_def)
next
  assume "int (len_map (users s)) < Users (limits s) \<and> map_of (users s) userName \<noteq> None"
  then show "Start s userName fs = (s, Some ErrKnownUser)"
    by (auto simp add: Start_def Let_def)
next
  assume new: "int (len_map (users s)) < Users (limits s) \<and> map_of (users s) userName = None"
  then have run: "Start s userName fs =
      (let s' = s\<lparr>users := AList.update userName \<lparr>name = userName, delays = []\<rparr> (users s),
                  userIdx := AList.update userName [] (userIdx s)\<rparr>
       in (case flush fs s' of
             Some err \<Rightarrow> (s', Some (Wrap ''start user'' err))
           | None \<Rightarrow> (s', None)))"
    by (simp add: Start_def Let_def)
  show "map_of (users (fst (Start s userName fs))) userName = Some \<lparr>name = userName, delays = []\<rparr>"
    by (simp add: run Let_def update_conv' split: option.split)
  show "map_of (userIdx (fst (Start s userName fs))) userName = Some []"
    by (simp add: run Let_def update_conv' split: option.split)
  show "items (fst (Start s userName fs)) = items s"
    by (simp add: run Let_def split: option.split)
  show "heap (fst (Start s userName fs)) = heap s"
    by (simp add: run Let_def split: option.split)
  show "snd (Start s userName fs) = None \<longleftrightarrow> fs = Written"
    using run by (cases fs) (simp_all add: Let_def flush_def)
qed

theorem Start_outcomes_witness:
  "Users (limits (started [weekly] limits_one_user)) \<le> int (len_map (users (started [weekly] limits_one_user))) \<and>
   Start (started [weekly] limits_one_user) ''u'' Written =
     (started [weekly] limits_one_user, Some (ErrTooManyUsers 1 1)) \<and>
   int (len_map (users (started [weekly] limits_1_100))) < Users (limits (started [weekly] limits_1_100)) \<and>
   map_of (users (started [weekly] limits_1_100)) ''u'' \<noteq> None \<and>
   Start (started [weekly] limits_1_100) ''u'' Written = (started [weekly] limits_1_100, Some ErrKnownUser) \<and>
   map_of (users (started [weekly] limits_1_100)) ''v'' = None \<and>
   map_of (users (fst (Start (started [weekly] limits_1_100) ''v'' Written))) ''v'' = Some \<lparr>name = ''v'', delays = []\<rparr> \<and>
   map_of (userIdx (fst (Start (started [weekly] limits_1_100) ''v'' Written))) ''v'' = Some [] \<and>
   items (fst (Start (started [weekly] limits_1_100) ''v'' Written)) = items (started [weekly] limits_1_100) \<and>
   snd (Start (started [weekly] limits_1_100) ''v'' Written) = None"
proof -
  have full: "Users (limits (started [weekly] limits_one_user)) \<le> int (len_map (users (started [weekly] limits_one_user)))"
    by code_simp
  have len1: "len_map (users (started [weekly] limits_one_user)) = 1"
    by code_simp
  have lim1: "Users (limits (started [weekly] limits_one_user)) = 1"
    by code_simp
  have room: "int (len_map (users (started [weekly] limits_1_100))) < Users (limits (started [weekly] limits_1_100))"
    by code_simp
  have known: "map_of (users (started [weekly] limits_1_100)) ''u'' \<noteq> None"
    by code_simp
  have unknown: "map_of (users (started [weekly] limits_1_100)) ''v'' = None"
    by code_simp
  from full len1 lim1 room known unknown
    Start_outcomes [of "started [weekly] limits_one_user" "''u''" Written]
    Start_outcomes [of "started [weekly] limits_1_100" "''u''" Written]
    Start_outcomes [of "started [weekly] limits_1_100" "''v''" Written]
  show ?thesis
    by simp
qed

section \<open>Properties of loadUsers\<close>

lemma set_fold_insert: "set (fold List.insert xs ys) = set xs \<union> set ys"
  by (induction xs arbitrary: ys) auto

lemma distinct_fold_insert: "distinct ys \<Longrightarrow> distinct (fold List.insert xs ys)"
  by (induction xs arbitrary: ys) auto

lemma sort_fold_insert:
  "sort (fold List.insert xs []) = sorted_list_of_set (set xs)"
proof (rule sorted_distinct_set_unique)
  show "sorted (sort (fold List.insert xs []))"
    by simp
  show "distinct (sort (fold List.insert xs []))"
    by (simp add: distinct_fold_insert)
  show "sorted (sorted_list_of_set (set xs))"
    by simp
  show "distinct (sorted_list_of_set (set xs))"
    by simp
  show "set (sort (fold List.insert xs [])) = set (sorted_list_of_set (set xs))"
    by (simp add: set_fold_insert)
qed

lemma parseDelays_no_limits:
  "\<forall>d \<in> set ds. \<not> isl (Atoi d) \<Longrightarrow>
   parseDelays 0 0 ds uniq = Inr (fold List.insert (map (\<lambda>d. projr (Atoi d)) ds) uniq)"
proof (induction ds arbitrary: uniq)
  case Nil
  show ?case by simp
next
  case (Cons d ds)
  from Cons.prems obtain j where j: "Atoi d = Inr j"
    by (cases "Atoi d") auto
  from Cons.prems have rest: "\<forall>d \<in> set ds. \<not> isl (Atoi d)"
    by simp
  show ?case
    by (simp add: j Cons.IH [OF rest])
qed

lemma parseUserRow_no_limits:
  assumes "length userItem = 2"
    and "\<forall>d \<in> set (Split (Trim (userItem ! 1))). \<not> isl (Atoi d)"
  shows "parseUserRow userItem 0 0 0 =
     Inr (Trim (userItem ! 0),
          sorted_list_of_set (set (map (\<lambda>d. projr (Atoi d)) (Split (Trim (userItem ! 1))))))"
  using assms
  by (simp add: parseUserRow_def parseDelays_no_limits sort_fold_insert Let_def)

text \<open>
  C10. \<open>loadUsers\<close> takes no limits and parses each row with 0 for the smallest delay, the
  largest delay and the number of delays, which switches the three checks off. A file in which
  every row has two fields and every delay token is an integer for \<open>Atoi\<close> is accepted: each
  row gives the user with the trimmed name and with the values of all its tokens, sorted and
  without duplicates, whatever the values are and however many there are.
\<close>

theorem loadUsers_applies_no_limits:
  assumes "\<forall>userItem \<in> set records.
             length userItem = 2 \<and> (\<forall>d \<in> set (Split (Trim (userItem ! 1))). \<not> isl (Atoi d))"
  shows "loadUsers (Inr records) =
     Inr (map (\<lambda>userItem.
                 \<lparr>name = Trim (userItem ! 0),
                  delays = sorted_list_of_set
                             (set (map (\<lambda>d. projr (Atoi d)) (Split (Trim (userItem ! 1)))))\<rparr>)
              records)"
proof -
  have "loadRows records =
     Inr (map (\<lambda>userItem.
                 \<lparr>name = Trim (userItem ! 0),
                  delays = sorted_list_of_set
                             (set (map (\<lambda>d. projr (Atoi d)) (Split (Trim (userItem ! 1)))))\<rparr>)
              records)"
    using assms
  proof (induction records)
    case Nil
    show ?case by simp
  next
    case (Cons userItem rest)
    from Cons.prems have row: "length userItem = 2"
      and toks: "\<forall>d \<in> set (Split (Trim (userItem ! 1))). \<not> isl (Atoi d)"
      by simp_all
    from Cons.prems have others: "\<forall>userItem \<in> set rest.
             length userItem = 2 \<and> (\<forall>d \<in> set (Split (Trim (userItem ! 1))). \<not> isl (Atoi d))"
      by simp
    show ?case
      by (simp add: parseUserRow_no_limits [OF row toks] Cons.IH [OF others])
  qed
  then show ?thesis
    by (simp add: loadUsers_def)
qed

theorem loadUsers_applies_no_limits_witness:
  "loadUsers (Inr [[''u'', ''0 500 -3 9 8 7 6 5 5''], ['' v '', ''1000000'']]) =
     Inr [\<lparr>name = ''u'', delays = [-3, 0, 5, 6, 7, 8, 9, 500]\<rparr>,
          \<lparr>name = ''v'', delays = [1000000]\<rparr>]"
proof -
  have rows: "\<forall>userItem \<in> set [[''u'', ''0 500 -3 9 8 7 6 5 5''], ['' v '', ''1000000'']].
       length userItem = 2 \<and> (\<forall>d \<in> set (Split (Trim (userItem ! 1))). \<not> isl (Atoi d))"
    by code_simp
  have result: "map (\<lambda>userItem.
                 \<lparr>name = Trim (userItem ! 0),
                  delays = sorted_list_of_set
                             (set (map (\<lambda>d. projr (Atoi d)) (Split (Trim (userItem ! 1)))))\<rparr>)
              [[''u'', ''0 500 -3 9 8 7 6 5 5''], ['' v '', ''1000000'']] =
     [\<lparr>name = ''u'', delays = [-3, 0, 5, 6, 7, 8, 9, 500]\<rparr>,
          \<lparr>name = ''v'', delays = [1000000]\<rparr>]"
    by code_simp
  from result loadUsers_applies_no_limits [OF rows]
  show ?thesis
    by simp
qed

section \<open>Properties of the global list\<close>

text \<open>A users file without rows gives the storage without users.\<close>

lemma Storage_init_no_users: "Storage_init es l [] clock = Inr (fresh es l)"
  by (simp add: Storage_init_def fresh_def byTimestamp_def)


lemma set_byTimestamp: "set (byTimestamp h as) = set as"
  by (simp add: byTimestamp_def)

lemma sorted_byTimestamp: "sorted (map (\<lambda>a. ns (timestamp (h ! a))) (byTimestamp h as))"
  by (simp add: byTimestamp_def)

lemma sortedItems_resorted:
  assumes "heap s' = h" and "items s' = byTimestamp h as" and "\<forall>a \<in> set as. a < length h"
  shows "sortedItems s'"
  using assms by (simp add: sortedItems_def set_byTimestamp sorted_byTimestamp)

lemma sortedItems_grown:
  assumes "sortedItems s" and "items s' = items s" and "heap s' = heap s @ objs"
  shows "sortedItems s'"
proof -
  from assms(1) have alloc: "\<forall>a \<in> set (items s). a < length (heap s)"
    and asc: "sorted (map (\<lambda>a. ns (timestamp (heap s ! a))) (items s))"
    by (simp_all add: sortedItems_def)
  have same: "map (\<lambda>a. ns (timestamp ((heap s @ objs) ! a))) (items s) =
              map (\<lambda>a. ns (timestamp (heap s ! a))) (items s)"
    using alloc by (simp add: nth_append)
  show ?thesis
    unfolding sortedItems_def assms(2) assms(3)
  proof (intro conjI)
    show "\<forall>a \<in> set (items s). a < length (heap s @ objs)"
      using alloc by auto
    show "sorted (map (\<lambda>a. ns (timestamp ((heap s @ objs) ! a))) (items s))"
      by (simp only: same asc)
  qed
qed

lemma sortedItems_same:
  assumes "sortedItems s" and "items s' = items s" and "heap s' = heap s"
  shows "sortedItems s'"
  using sortedItems_grown [OF assms(1) assms(2), of "[]"] assms(3) by simp

lemma user_init_Inr:
  assumes "user_init h u es now = Inr (h', new)"
  shows "(\<exists>objs. h' = h @ objs) \<and> (\<forall>a \<in> set new. a < length h')"
proof -
  from assms obtain objs where objs: "eventItems u es now = Inr objs"
    by (cases "eventItems u es now") (simp_all add: user_init_def)
  from assms objs have h': "h' = h @ objs"
    and new: "new = byTimestamp (h @ objs) [length h ..< length h + length objs]"
    by (auto simp add: user_init_def)
  show ?thesis
    by (auto simp add: h' new set_byTimestamp)
qed

lemma length_collectDue: "length (fst (collectDue h as now)) = length h"
proof (induction as arbitrary: h)
  case Nil
  show ?case by simp
next
  case (Cons a as)
  show ?case
    by (simp add: Let_def case_prod_beta Cons.IH)
qed

lemma Start_sorted:
  assumes "sortedItems s"
  shows "sortedItems (fst (Start s userName fs))"
proof -
  have "items (fst (Start s userName fs)) = items s"
    by (simp add: Start_def Let_def split: option.split)
  moreover have "heap (fst (Start s userName fs)) = heap s"
    by (simp add: Start_def Let_def split: option.split)
  ultimately show ?thesis
    using assms by (rule sortedItems_same [rotated])
qed

lemma Stop_sorted:
  assumes "sortedItems s"
  shows "sortedItems (fst (Stop s userName fs))"
proof (cases "map_of (users s) userName")
  case None
  then show ?thesis
    using assms by (simp add: Stop_def)
next
  case (Some u)
  have h: "heap (fst (Stop s userName fs)) = heap s"
    by (simp add: Stop_def Some Let_def split: option.split)
  have i: "items (fst (Stop s userName fs)) =
      byTimestamp (heap s) (filter (\<lambda>a. user (heap s ! a) \<noteq> userName) (items s))"
    by (simp add: Stop_def Some Let_def split: option.split)
  from assms have "\<forall>a \<in> set (filter (\<lambda>a. user (heap s ! a) \<noteq> userName) (items s)). a < length (heap s)"
    by (simp add: sortedItems_def)
  with h i show ?thesis
    by (rule sortedItems_resorted)
qed

lemma notifications_sorted:
  assumes "sortedItems s"
  shows "sortedItems (fst (notifications s now))"
proof -
  have h: "heap (fst (notifications s now)) = fst (collectDue (heap s) (items s) now)"
    by (simp add: notifications_def case_prod_beta)
  have i: "items (fst (notifications s now)) =
      byTimestamp (fst (collectDue (heap s) (items s) now)) (items s)"
    by (simp add: notifications_def case_prod_beta)
  from assms have "\<forall>a \<in> set (items s). a < length (fst (collectDue (heap s) (items s) now))"
    by (simp add: sortedItems_def length_collectDue)
  with h i show ?thesis
    by (rule sortedItems_resorted)
qed


lemma Set_sorted:
  assumes "sortedItems s"
  shows "sortedItems (fst (Set s userName values now fs))"
proof (cases "values = []")
  case True
  then show ?thesis
    using assms by (simp add: Set_def)
next
  case nonempty: False
  show ?thesis
  proof (cases "map_of (users s) userName")
    case None
    then show ?thesis
      using assms nonempty by (simp add: Set_def)
  next
    case (Some u0)
    show ?thesis
    proof (cases "parseUserRow [userName, values]
                    (MaxDelay (limits s)) (MinDelay (limits s)) (Delays (limits s))")
      case (Inl err)
      then show ?thesis
        using assms nonempty Some by (simp add: Set_def)
    next
      case (Inr row)
      obtain nm ds where row: "row = (nm, ds)"
        by (cases row)
      define u where "u = u0\<lparr>delays := ds\<rparr>"
      show ?thesis
      proof (cases "user_init (heap s) u (events s) now")
        case (Inl p)
        have "items (fst (Set s userName values now fs)) = items s"
          and "heap (fst (Set s userName values now fs)) = heap s"
          using nonempty Some Inr row Inl by (simp_all add: Set_def Let_def u_def)
        with assms show ?thesis
          by (rule sortedItems_same)
      next
        case made: (Inr made)
        obtain h new where hn: "made = (h, new)"
          by (cases made)
        from made hn user_init_Inr [of "heap s" u "events s" now h new]
        obtain objs where h: "h = heap s @ objs" and new: "\<forall>a \<in> set new. a < length h"
          by auto
        define s2 where "s2 = s\<lparr>users := AList.update (name u) u (AList.update userName u (users s)),
                                  userIdx := AList.update (name u) new (userIdx s),
                                  heap := h\<rparr>"
        show ?thesis
        proof (cases "flush fs s2")
          case (Some err)
          have "items (fst (Set s userName values now fs)) = items s"
            and "heap (fst (Set s userName values now fs)) = heap s @ objs"
            using nonempty \<open>map_of (users s) userName = Some u0\<close> Inr row made hn Some h
            by (simp_all add: Set_def Let_def u_def s2_def flush_def)
          with assms show ?thesis
            by (rule sortedItems_grown)
        next
          case None
          have hp: "heap (fst (Set s userName values now fs)) = h"
            and it: "items (fst (Set s userName values now fs)) =
               byTimestamp h (filter (\<lambda>a. user (h ! a) \<noteq> name u) (items s) @ new)"
            using nonempty \<open>map_of (users s) userName = Some u0\<close> Inr row made hn None
            by (simp_all add: Set_def Let_def u_def s2_def flush_def)
          from assms have "\<forall>a \<in> set (items s). a < length h"
            by (auto simp add: sortedItems_def h)
          with new have "\<forall>a \<in> set (filter (\<lambda>a. user (h ! a) \<noteq> name u) (items s) @ new). a < length h"
            by auto
          with hp it show ?thesis
            by (rule sortedItems_resorted)
        qed
      qed
    qed
  qed
qed

lemma initLoop_allocated:
  assumes "initLoop s i us clock = Inr s'"
    and "\<forall>a \<in> set (items s). a < length (heap s)"
  shows "\<forall>a \<in> set (items s'). a < length (heap s')"
  using assms
proof (induction us arbitrary: s i)
  case Nil
  then show ?case by simp
next
  case (Cons u us)
  from Cons.prems(1) obtain made where made: "user_init (heap s) u (events s) (clock i) = Inr made"
    by (cases "user_init (heap s) u (events s) (clock i)") simp_all
  obtain h new where hn: "made = (h, new)"
    by (cases made)
  from made hn user_init_Inr [of "heap s" u "events s" "clock i" h new]
  obtain objs where h: "h = heap s @ objs" and new: "\<forall>a \<in> set new. a < length h"
    by auto
  define s1 where "s1 = s\<lparr>heap := h,
                      users := AList.update (name u) u (users s),
                      userIdx := AList.update (name u) new (userIdx s),
                      items := items s @ new\<rparr>"
  from Cons.prems(1) made hn have run: "initLoop s1 (Suc i) us clock = Inr s'"
    by (simp add: s1_def)
  from Cons.prems(2) new have "\<forall>a \<in> set (items s1). a < length (heap s1)"
    by (auto simp add: s1_def h)
  with run show ?case
    by (rule Cons.IH)
qed

lemma Storage_init_sorted:
  assumes "Storage_init es l us clock = Inr s"
  shows "sortedItems s"
proof -
  from assms obtain s' where
    loop: "initLoop \<lparr>events = es, items = [], limits = l, users = [], userIdx = [], heap = []\<rparr>
             0 us clock = Inr s'"
    and s: "s = s'\<lparr>items := byTimestamp (heap s') (items s')\<rparr>"
    by (auto simp add: Storage_init_def split: sum.splits)
  from loop have "\<forall>a \<in> set (items s'). a < length (heap s')"
    by (rule initLoop_allocated) simp
  moreover have "heap s = heap s'" and "items s = byTimestamp (heap s') (items s')"
    by (simp_all add: s)
  ultimately show ?thesis
    by (intro sortedItems_resorted [of s "heap s'" "items s'"]) simp_all
qed

text \<open>
  C5. The storage that \<open>Storage.init\<close> builds has a sorted global list, and \<open>Start\<close>,
  \<open>Stop\<close>, \<open>Set\<close> and \<open>notifications\<close> each turn a storage with a sorted global list
  into one with a sorted global list, on every path: whether they return an error or not and
  whether the users file was written or not.
\<close>

theorem items_sorted_after_every_operation:
  "(Storage_init es l us clock = Inr s0 \<longrightarrow> sortedItems s0) \<and>
   (sortedItems s \<longrightarrow>
      sortedItems (fst (Start s userName fs)) \<and>
      sortedItems (fst (Stop s userName fs)) \<and>
      sortedItems (fst (Set s userName values now fs)) \<and>
      sortedItems (fst (notifications s now)))"
  using Storage_init_sorted Start_sorted Stop_sorted Set_sorted notifications_sorted
  by blast


theorem items_sorted_after_every_operation_witness:
  "items (projr two_delays_storage) = [1, 0] \<and>
   sortedItems (projr two_delays_storage) \<and>
   sortedItems (fst (Start (projr two_delays_storage) ''u'' Written)) \<and>
   sortedItems (fst (Stop (projr two_delays_storage) ''u'' Written)) \<and>
   sortedItems (fst (Set (projr two_delays_storage) ''u'' ''5'' (at_minute 215) Written)) \<and>
   sortedItems (fst (notifications (projr two_delays_storage) (at_minute 215)))"
proof -
  have built: "Storage_init [hourly] limits_5_5 [\<lparr>name = ''u'', delays = [30, 120]\<rparr>]
                 (\<lambda>i. at_minute 210) = Inr (projr two_delays_storage)"
    by code_simp
  have order: "items (projr two_delays_storage) = [1, 0]"
    by code_simp
  from built order
    items_sorted_after_every_operation
      [of "[hourly]" limits_5_5 "[\<lparr>name = ''u'', delays = [30, 120]\<rparr>]" "\<lambda>i. at_minute 210"
          "projr two_delays_storage" "projr two_delays_storage" "''u''" Written "''5''"
          "at_minute 215"]
  show ?thesis
    by blast
qed

text \<open>
  The global list holds no entry twice: \<open>user.init\<close> makes new objects, and the methods
  only drop, append and reorder pointers.
\<close>

lemma distinct_byTimestamp: "distinct (byTimestamp h as) = distinct as"
  by (simp add: byTimestamp_def)

lemma user_init_fresh:
  assumes "user_init h u es now = Inr (h', new)"
  shows "distinct new \<and> (\<forall>a \<in> set new. length h \<le> a)"
proof -
  from assms obtain objs where objs: "eventItems u es now = Inr objs"
    by (cases "eventItems u es now") (simp_all add: user_init_def)
  from assms objs have new: "new = byTimestamp (h @ objs) [length h ..< length h + length objs]"
    by (auto simp add: user_init_def)
  show ?thesis
    by (simp add: new distinct_byTimestamp set_byTimestamp)
qed

lemma Set_items:
  "items (fst (Set s userName values now fs)) = items s \<or>
   (\<exists>h new P. items (fst (Set s userName values now fs)) = byTimestamp h (filter P (items s) @ new) \<and>
        distinct new \<and> (\<forall>a \<in> set new. length (heap s) \<le> a))"
proof (cases "values = []")
  case True
  then show ?thesis
    by (simp add: Set_def)
next
  case nonempty: False
  show ?thesis
  proof (cases "map_of (users s) userName")
    case None
    then show ?thesis
      using nonempty by (simp add: Set_def)
  next
    case (Some u0)
    show ?thesis
    proof (cases "parseUserRow [userName, values]
                    (MaxDelay (limits s)) (MinDelay (limits s)) (Delays (limits s))")
      case (Inl err)
      then show ?thesis
        using nonempty Some by (simp add: Set_def)
    next
      case (Inr row)
      obtain nm ds where row: "row = (nm, ds)"
        by (cases row)
      define u where "u = u0\<lparr>delays := ds\<rparr>"
      show ?thesis
      proof (cases "user_init (heap s) u (events s) now")
        case (Inl p)
        have "items (fst (Set s userName values now fs)) = items s"
          using nonempty Some Inr row Inl by (simp add: Set_def Let_def u_def)
        then show ?thesis ..
      next
        case made: (Inr made)
        obtain h new where hn: "made = (h, new)"
          by (cases made)
        from made hn user_init_fresh [of "heap s" u "events s" now h new]
        have new: "distinct new \<and> (\<forall>a \<in> set new. length (heap s) \<le> a)"
          by simp
        show ?thesis
        proof (cases fs)
          case Written
          have "items (fst (Set s userName values now fs)) =
               byTimestamp h (filter (\<lambda>a. user (h ! a) \<noteq> name u) (items s) @ new)"
            using nonempty Some Inr row made hn Written
            by (simp add: Set_def Let_def u_def flush_def)
          with new show ?thesis
            by blast
        next
          case OpenFails
          have "items (fst (Set s userName values now fs)) = items s"
            using nonempty Some Inr row made hn OpenFails
            by (simp add: Set_def Let_def u_def flush_def)
          then show ?thesis ..
        next
          case WriteFails
          have "items (fst (Set s userName values now fs)) = items s"
            using nonempty Some Inr row made hn WriteFails
            by (simp add: Set_def Let_def u_def flush_def)
          then show ?thesis ..
        next
          case FlushFails
          have "items (fst (Set s userName values now fs)) = items s"
            using nonempty Some Inr row made hn FlushFails
            by (simp add: Set_def Let_def u_def flush_def)
          then show ?thesis ..
        qed
      qed
    qed
  qed
qed

lemma Set_distinct:
  assumes "sortedItems s" and "distinct (items s)"
  shows "distinct (items (fst (Set s userName values now fs)))"
proof -
  from assms(1) have alloc: "\<forall>a \<in> set (items s). a < length (heap s)"
    by (simp add: sortedItems_def)
  from Set_items [of s userName "values" now fs] show ?thesis
  proof
    assume "items (fst (Set s userName values now fs)) = items s"
    with assms(2) show ?thesis
      by simp
  next
    assume "\<exists>h new P. items (fst (Set s userName values now fs)) =
                byTimestamp h (filter P (items s) @ new) \<and>
              distinct new \<and> (\<forall>a \<in> set new. length (heap s) \<le> a)"
    then obtain h new P where
      it: "items (fst (Set s userName values now fs)) = byTimestamp h (filter P (items s) @ new)"
      and dn: "distinct new" and fr: "\<forall>a \<in> set new. length (heap s) \<le> a"
      by blast
    from alloc fr have "set (filter P (items s)) \<inter> set new = {}"
      by fastforce
    with assms(2) dn show ?thesis
      by (simp add: it distinct_byTimestamp)
  qed
qed

lemma initLoop_distinct:
  assumes "initLoop s i us clock = Inr s'"
    and "\<forall>a \<in> set (items s). a < length (heap s)"
    and "distinct (items s)"
  shows "distinct (items s')"
  using assms
proof (induction us arbitrary: s i)
  case Nil
  then show ?case by simp
next
  case (Cons u us)
  from Cons.prems(1) obtain made where made: "user_init (heap s) u (events s) (clock i) = Inr made"
    by (cases "user_init (heap s) u (events s) (clock i)") simp_all
  obtain h new where hn: "made = (h, new)"
    by (cases made)
  from made hn user_init_Inr [of "heap s" u "events s" "clock i" h new]
  obtain objs where h: "h = heap s @ objs" and new: "\<forall>a \<in> set new. a < length h"
    by auto
  from made hn user_init_fresh [of "heap s" u "events s" "clock i" h new]
  have dn: "distinct new" and fr: "\<forall>a \<in> set new. length (heap s) \<le> a"
    by simp_all
  define s1 where "s1 = s\<lparr>heap := h,
                      users := AList.update (name u) u (users s),
                      userIdx := AList.update (name u) new (userIdx s),
                      items := items s @ new\<rparr>"
  from Cons.prems(1) made hn have run: "initLoop s1 (Suc i) us clock = Inr s'"
    by (simp add: s1_def)
  from Cons.prems(2) new have alloc1: "\<forall>a \<in> set (items s1). a < length (heap s1)"
    by (auto simp add: s1_def h)
  from Cons.prems(2) fr have "set (items s) \<inter> set new = {}"
    by fastforce
  with Cons.prems(3) dn have "distinct (items s1)"
    by (simp add: s1_def)
  with run alloc1 show ?case
    by (rule Cons.IH)
qed

lemma items_distinct_kept:
  "(Storage_init es l us clock = Inr s0 \<longrightarrow> distinct (items s0)) \<and>
   (sortedItems s \<and> distinct (items s) \<longrightarrow>
      distinct (items (fst (Start s userName fs))) \<and>
      distinct (items (fst (Stop s userName fs))) \<and>
      distinct (items (fst (Set s userName values now fs))) \<and>
      distinct (items (fst (notifications s now))))"
proof (intro conjI impI)
  assume built: "Storage_init es l us clock = Inr s0"
  then obtain s' where
    loop: "initLoop \<lparr>events = es, items = [], limits = l, users = [], userIdx = [], heap = []\<rparr>
             0 us clock = Inr s'"
    and s0: "s0 = s'\<lparr>items := byTimestamp (heap s') (items s')\<rparr>"
    by (auto simp add: Storage_init_def split: sum.splits)
  from loop have "distinct (items s')"
    by (rule initLoop_distinct) simp_all
  then show "distinct (items s0)"
    by (simp add: s0 distinct_byTimestamp)
next
  assume inv: "sortedItems s \<and> distinct (items s)"
  then show "distinct (items (fst (Start s userName fs)))"
    by (simp add: Start_def Let_def split: option.split)
  from inv show "distinct (items (fst (Stop s userName fs)))"
    by (simp add: Stop_def Let_def distinct_byTimestamp split: option.split)
  from inv show "distinct (items (fst (Set s userName values now fs)))"
    by (simp add: Set_distinct)
  from inv show "distinct (items (fst (notifications s now)))"
    by (simp add: notifications_def case_prod_beta distinct_byTimestamp)
qed

lemma collectDue_untouched:
  "a \<notin> set as \<Longrightarrow> fst (collectDue h as now) ! a = h ! a"
proof (induction as arbitrary: h)
  case Nil
  show ?case by simp
next
  case (Cons b as)
  from Cons.prems have ab: "a \<noteq> b" and rest: "a \<notin> set as"
    by auto
  show ?case
    using ab by (simp add: Let_def case_prod_beta Cons.IH [OF rest])
qed

lemma collectDue_none_due:
  "\<forall>a \<in> set as. \<not> Before (timestamp (h ! a)) now \<Longrightarrow> collectDue h as now = (h, [])"
  by (cases as) simp_all

lemma collectDue_all_advanced:
  assumes "distinct as"
    and "\<forall>a \<in> set as. a < length h"
    and "sorted (map (\<lambda>a. ns (timestamp (h ! a))) as)"
    and "\<forall>a \<in> set as. Before (timestamp (h ! a)) now \<longrightarrow>
           \<not> Before (Add (timestamp (h ! a)) (offset (event (h ! a)))) now"
  shows "\<forall>a \<in> set as. \<not> Before (timestamp (fst (collectDue h as now) ! a)) now"
  using assms
proof (induction as arbitrary: h)
  case Nil
  show ?case by simp
next
  case (Cons a as)
  from Cons.prems(1) have fresh_a: "a \<notin> set as" and dist: "distinct as"
    by simp_all
  from Cons.prems(2) have a_in: "a < length h" and rest_in: "\<forall>b \<in> set as. b < length h"
    by simp_all
  from Cons.prems(3) have above: "\<forall>b \<in> set as. ns (timestamp (h ! a)) \<le> ns (timestamp (h ! b))"
    and asc: "sorted (map (\<lambda>b. ns (timestamp (h ! b))) as)"
    by simp_all
  show ?case
  proof (cases "Before (timestamp (h ! a)) now")
    case due: True
    define i' where "i' = (h ! a)\<lparr>timestamp := Add (timestamp (h ! a)) (offset (event (h ! a)))\<rparr>"
    define h2 where "h2 = h[a := i']"
    have keep: "\<forall>b \<in> set as. h2 ! b = h ! b"
    proof
      fix b
      assume "b \<in> set as"
      with fresh_a have "a \<noteq> b"
        by auto
      then show "h2 ! b = h ! b"
        by (simp add: h2_def)
    qed
    have run: "fst (collectDue h (a # as) now) = fst (collectDue h2 as now)"
      using due by (simp add: Let_def case_prod_beta h2_def i'_def)
    have p2: "\<forall>b \<in> set as. b < length h2"
      using rest_in by (simp add: h2_def)
    have same: "map (\<lambda>b. ns (timestamp (h2 ! b))) as = map (\<lambda>b. ns (timestamp (h ! b))) as"
      using keep by simp
    have p3: "sorted (map (\<lambda>b. ns (timestamp (h2 ! b))) as)"
      by (simp only: same asc)
    have p4: "\<forall>b \<in> set as. Before (timestamp (h2 ! b)) now \<longrightarrow>
           \<not> Before (Add (timestamp (h2 ! b)) (offset (event (h2 ! b)))) now"
      using Cons.prems(4) keep by simp
    have others: "\<forall>b \<in> set as. \<not> Before (timestamp (fst (collectDue h2 as now) ! b)) now"
      using dist p2 p3 p4 by (rule Cons.IH)
    have "fst (collectDue h2 as now) ! a = h2 ! a"
      using fresh_a by (rule collectDue_untouched)
    also have "h2 ! a = i'"
      using a_in by (simp add: h2_def)
    finally have "timestamp (fst (collectDue h2 as now) ! a) =
        Add (timestamp (h ! a)) (offset (event (h ! a)))"
      by (simp add: i'_def)
    moreover have "\<not> Before (Add (timestamp (h ! a)) (offset (event (h ! a)))) now"
      using Cons.prems(4) due by simp
    ultimately have mine: "\<not> Before (timestamp (fst (collectDue h2 as now) ! a)) now"
      by simp
    show ?thesis
      unfolding run using others mine by simp
  next
    case not_due: False
    then have run: "fst (collectDue h (a # as) now) = h"
      by (simp add: Let_def)
    from not_due above have later: "\<forall>b \<in> set as. \<not> Before (timestamp (h ! b)) now"
      by (auto simp add: Before_def)
    show ?thesis
      unfolding run using not_due later by simp
  qed
qed

text \<open>
  C4, as stated, fails. The users file holds the row \<open>u,120\<close>, the one event comes every
  hour, next at 04:00, and the bot starts at 03:30: the entry of the user is for 02:00. The
  first call at 03:30 sends it and moves it by one period, to 03:00, which is before 03:30
  still, so the second call at 03:30 sends it again.
\<close>

theorem notifications_second_call_not_empty:
  "items (projr (loaded [hourly] ''120'' 210)) = [0] \<and>
   length (snd (notifications (projr (loaded [hourly] ''120'' 210)) (at_minute 210))) = 1 \<and>
   length (snd (notifications (fst (notifications (projr (loaded [hourly] ''120'' 210)) (at_minute 210)))
                  (at_minute 210))) = 1 \<and>
   snd (notifications (fst (notifications (projr (loaded [hourly] ''120'' 210)) (at_minute 210)))
          (at_minute 210)) \<noteq> []"
  by code_simp

text \<open>
  C4, amended. On a storage whose global list is sorted and holds no entry twice (as the
  methods of the storage keep it), a second call of \<open>notifications\<close> with the same
  \<open>now\<close> returns no message, provided that every entry that is before \<open>now\<close> at the
  first call is late by no more than one period of its event: its timestamp plus the period
  is not before \<open>now\<close>.
\<close>

theorem notifications_second_call_empty:
  assumes "sortedItems s"
    and "distinct (items s)"
    and "\<forall>a \<in> set (items s). Before (timestamp (heap s ! a)) now \<longrightarrow>
           \<not> Before (Add (timestamp (heap s ! a)) (offset (event (heap s ! a)))) now"
  shows "snd (notifications (fst (notifications s now)) now) = []"
proof -
  define h1 where "h1 = fst (collectDue (heap s) (items s) now)"
  from assms(1) have alloc: "\<forall>a \<in> set (items s). a < length (heap s)"
    and asc: "sorted (map (\<lambda>a. ns (timestamp (heap s ! a))) (items s))"
    by (simp_all add: sortedItems_def)
  have advanced: "\<forall>a \<in> set (items s). \<not> Before (timestamp (h1 ! a)) now"
    unfolding h1_def using assms(2) alloc asc assms(3) by (rule collectDue_all_advanced)
  have first: "fst (notifications s now) = s\<lparr>heap := h1, items := byTimestamp h1 (items s)\<rparr>"
    by (simp add: notifications_def case_prod_beta h1_def)
  from advanced have "\<forall>a \<in> set (byTimestamp h1 (items s)). \<not> Before (timestamp (h1 ! a)) now"
    by (simp add: set_byTimestamp)
  then have none: "collectDue h1 (byTimestamp h1 (items s)) now = (h1, [])"
    by (rule collectDue_none_due)
  have second: "snd (notifications s1 now) = snd (collectDue (heap s1) (items s1) now)" for s1
    by (simp add: notifications_def case_prod_beta)
  have "snd (notifications (fst (notifications s now)) now) =
      snd (collectDue h1 (byTimestamp h1 (items s)) now)"
    by (simp add: second first)
  with none show ?thesis
    by simp
qed

theorem notifications_second_call_empty_witness:
  "length (snd (notifications (projr (loaded [hourly] ''30'' 230)) (at_minute 230))) = 1 \<and>
   snd (notifications (fst (notifications (projr (loaded [hourly] ''30'' 230)) (at_minute 230)))
          (at_minute 230)) = []"
proof -
  have srt: "sortedItems (projr (loaded [hourly] ''30'' 230))"
    by code_simp
  have dist: "distinct (items (projr (loaded [hourly] ''30'' 230)))"
    by code_simp
  have once: "\<forall>a \<in> set (items (projr (loaded [hourly] ''30'' 230))).
      Before (timestamp (heap (projr (loaded [hourly] ''30'' 230)) ! a)) (at_minute 230) \<longrightarrow>
      \<not> Before (Add (timestamp (heap (projr (loaded [hourly] ''30'' 230)) ! a))
                    (offset (event (heap (projr (loaded [hourly] ''30'' 230)) ! a)))) (at_minute 230)"
    by code_simp
  have due: "length (snd (notifications (projr (loaded [hourly] ''30'' 230)) (at_minute 230))) = 1"
    by code_simp
  from due notifications_second_call_empty [OF srt dist once]
  show ?thesis
    by simp
qed

end
